theory Spec2Isabelle
  imports Main "HOL-Library.Sublist"
begin

section \<open>Strings\<close>

text \<open>
  A JavaScript string is a sequence of UTF-16 code units. It is modelled as a \<^typ>\<open>string\<close>,
  each \<^typ>\<open>char\<close> read as one code unit below 256 (ASCII and the Latin-1 supplement).
  Strings with code units from 256 on are outside the model.
\<close>

definition in_range :: "char \<Rightarrow> char \<Rightarrow> char \<Rightarrow> bool" where
  "in_range lo hi c = ((of_char lo :: nat) \<le> of_char c \<and> (of_char c :: nat) \<le> of_char hi)"

text \<open>\<open>String.prototype.includes\<close>: the pattern occurs as a contiguous run.\<close>

fun str_includes :: "string \<Rightarrow> string \<Rightarrow> bool" where
  "str_includes [] pat = (pat = [])"
| "str_includes (c # cs) pat = (prefix pat (c # cs) \<or> str_includes cs pat)"

text \<open>
  \<open>String.prototype.toLowerCase\<close> on code units below 256: the letters A to Z and the
  Latin-1 capitals (0xC0 to 0xDE, the multiplication sign 0xD7 excepted) move up by 32.
\<close>

definition lower_char :: "char \<Rightarrow> char" where
  "lower_char c =
     (if in_range CHR ''A'' CHR ''Z'' c \<or> (in_range (CHR 0xC0) (CHR 0xDE) c \<and> c \<noteq> CHR 0xD7)
      then char_of (of_char c + (32 :: nat)) else c)"

definition toLowerCase :: "string \<Rightarrow> string" where
  "toLowerCase s = map lower_char s"

text \<open>Template-literal interpolation of a non-negative integer (\<open>`${n}`\<close>).\<close>

fun string_of_nat :: "nat \<Rightarrow> string" where
  "string_of_nat n =
     (if n < 10 then [char_of (48 + n)]
      else string_of_nat (n div 10) @ [char_of (48 + n mod 10)])"

section \<open>Regular expressions\<close>

text \<open>
  The fragment of JavaScript regular expressions that the e-mail pattern uses: character
  classes, concatenation, alternation and repetition. \<open>Never\<close> is the pattern that matches
  nothing; it only arises as a derivative.
\<close>

datatype regex =
    Never
  | Empty
  | Class "char \<Rightarrow> bool"
  | Cat regex regex
  | Or regex regex
  | Star regex

text \<open>\<open>r+\<close>, \<open>r{1,3}\<close> and \<open>r{2,}\<close>, and a single literal character.\<close>

definition Lit :: "char \<Rightarrow> regex" where
  "Lit c = Class (\<lambda>x. x = c)"

definition Plus1 :: "regex \<Rightarrow> regex" where
  "Plus1 r = Cat r (Star r)"

definition Rep1to3 :: "regex \<Rightarrow> regex" where
  "Rep1to3 r = Cat r (Or Empty (Cat r (Or Empty r)))"

definition AtLeast2 :: "regex \<Rightarrow> regex" where
  "AtLeast2 r = Cat r (Cat r (Star r))"

text \<open>
  \<open>RegExp.prototype.test\<close> for a pattern anchored by \<open>^\<close> and \<open>$\<close> without flags: the
  whole input has to match. The matcher consumes the input one character at a time.
\<close>

fun nullable :: "regex \<Rightarrow> bool" where
  "nullable Never = False"
| "nullable Empty = True"
| "nullable (Class P) = False"
| "nullable (Cat r s) = (nullable r \<and> nullable s)"
| "nullable (Or r s) = (nullable r \<or> nullable s)"
| "nullable (Star r) = True"

fun deriv :: "char \<Rightarrow> regex \<Rightarrow> regex" where
  "deriv c Never = Never"
| "deriv c Empty = Never"
| "deriv c (Class P) = (if P c then Empty else Never)"
| "deriv c (Cat r s) =
     (if nullable r then Or (Cat (deriv c r) s) (deriv c s) else Cat (deriv c r) s)"
| "deriv c (Or r s) = Or (deriv c r) (deriv c s)"
| "deriv c (Star r) = Cat (deriv c r) (Star r)"

fun re_test :: "regex \<Rightarrow> string \<Rightarrow> bool" where
  "re_test r [] = nullable r"
| "re_test r (c # cs) = re_test (deriv c r) cs"

text \<open>The words a pattern denotes, as sets: the reference semantics of the matcher.\<close>

inductive_set star :: "string set \<Rightarrow> string set" for A :: "string set" where
  star_nil: "[] \<in> star A"
| star_app: "u \<in> A \<Longrightarrow> v \<in> star A \<Longrightarrow> u @ v \<in> star A"

fun lang :: "regex \<Rightarrow> string set" where
  "lang Never = {}"
| "lang Empty = {[]}"
| "lang (Class P) = {[c] | c. P c}"
| "lang (Cat r s) = {u @ v | u v. u \<in> lang r \<and> v \<in> lang s}"
| "lang (Or r s) = lang r \<union> lang s"
| "lang (Star r) = star (lang r)"

section \<open>The e-mail validator (\<open>isValidEmail\<close>)\<close>

definition dquote :: char where
  "dquote = CHR 0x22"

definition backslash :: char where
  "backslash = CHR 0x5C"

text \<open>\<open>\s\<close> on code units below 256: tab, LF, VT, FF, CR, space and the no-break space.\<close>

definition is_space :: "char \<Rightarrow> bool" where
  "is_space c = (c \<in> {CHR 0x09, CHR 0x0A, CHR 0x0B, CHR 0x0C, CHR 0x0D, CHR 0x20, CHR 0xA0})"

text \<open>The dot of a pattern matches everything but a line terminator.\<close>

definition line_terminator :: "char \<Rightarrow> bool" where
  "line_terminator c = (c = CHR 0x0A \<or> c = CHR 0x0D)"

text \<open>The class \<open>[^<>()[\]\\.,;:\s@"]\<close>.\<close>

definition atext :: "char \<Rightarrow> bool" where
  "atext c =
     (c \<notin> {CHR ''<'', CHR ''>'', CHR ''('', CHR '')'', CHR ''['', CHR '']'', backslash,
            CHR ''.'', CHR '','', CHR '';'', CHR '':'', CHR ''@'', dquote}
      \<and> \<not> is_space c)"

definition letter :: "char \<Rightarrow> bool" where
  "letter c = (in_range CHR ''a'' CHR ''z'' c \<or> in_range CHR ''A'' CHR ''Z'' c)"

definition digit :: "char \<Rightarrow> bool" where
  "digit c = in_range CHR ''0'' CHR ''9'' c"

text \<open>The class \<open>[a-zA-Z\-0-9]\<close>.\<close>

definition ldh :: "char \<Rightarrow> bool" where
  "ldh c = (letter c \<or> c = CHR ''-'' \<or> digit c)"

text \<open>
  The pattern of \<open>isValidEmail\<close>, piece by piece:
  \<^verbatim>\<open>[^<>()[\]\\.,;:\s@"]+(\.[^<>()[\]\\.,;:\s@"]+)*\<close>,
  \<^verbatim>\<open>".+"\<close>,
  \<^verbatim>\<open>\[[0-9]{1,3}\.[0-9]{1,3}\.[0-9]{1,3}\.[0-9]{1,3}]\<close> and
  \<^verbatim>\<open>([a-zA-Z\-0-9]+\.)+[a-zA-Z]{2,}\<close>.
\<close>

definition re_dot_atoms :: regex where
  "re_dot_atoms = Cat (Plus1 (Class atext)) (Star (Cat (Lit CHR ''.'') (Plus1 (Class atext))))"

definition re_quoted :: regex where
  "re_quoted = Cat (Lit dquote) (Cat (Plus1 (Class (\<lambda>c. \<not> line_terminator c))) (Lit dquote))"

definition re_ip_literal :: regex where
  "re_ip_literal =
     Cat (Lit CHR ''['') (Cat (Rep1to3 (Class digit)) (Cat (Lit CHR ''.'')
       (Cat (Rep1to3 (Class digit)) (Cat (Lit CHR ''.'')
       (Cat (Rep1to3 (Class digit)) (Cat (Lit CHR ''.'')
       (Cat (Rep1to3 (Class digit)) (Lit CHR '']''))))))))"

definition re_hostname :: regex where
  "re_hostname = Cat (Plus1 (Cat (Plus1 (Class ldh)) (Lit CHR ''.''))) (AtLeast2 (Class letter))"

definition email_re :: regex where
  "email_re = Cat (Or re_dot_atoms re_quoted) (Cat (Lit CHR ''@'') (Or re_ip_literal re_hostname))"

definition isValidEmail :: "string \<Rightarrow> bool" where
  "isValidEmail email =
     (if email = [] \<or> email = ''NULL'' then False else re_test email_re email)"

section \<open>Data model (\<open>types.ts\<close>)\<close>

datatype confidence = Verified | High | Low | Estimated

record lead =
  lead_id :: string
  firstName :: string
  lastName :: string
  email :: string
  phone :: string
  jobTitle :: string
  companyName :: string
  location :: string
  linkedin :: string
  website :: string
  emailConfidence :: confidence
  source :: "string option"

record SearchCriteria =
  targetRoles :: string
  crit_keywords :: string
  industries :: string
  crit_location :: string
  includeContactInfo :: bool
  resultsAmount :: nat

record ScoutStatus =
  isSearching :: bool
  isLooping :: bool
  totalFound :: nat
  lastSearchTime :: "string option"
  logs :: "string list"

section \<open>The gateway (\<open>findLeads\<close>)\<close>

text \<open>
  One element of the provider's JSON array. The response schema declares every property a
  string, so a property is a string or is missing: \<open>None\<close> stands for an absent property
  (and for \<open>null\<close>, which \<open>||\<close> treats alike).
\<close>

record raw_lead =
  raw_firstName :: "string option"
  raw_lastName :: "string option"
  raw_email :: "string option"
  raw_phone :: "string option"
  raw_jobTitle :: "string option"
  raw_companyName :: "string option"
  raw_location :: "string option"
  raw_linkedin :: "string option"
  raw_website :: "string option"
  raw_emailConfidence :: "string option"

text \<open>\<open>v || d\<close> on a possibly missing string: the empty string is falsy too.\<close>

definition or_default :: "string option \<Rightarrow> string \<Rightarrow> string" where
  "or_default v d = (case v of None \<Rightarrow> d | Some s \<Rightarrow> if s = [] then d else s)"

definition mapConfidence :: "string \<Rightarrow> confidence" where
  "mapConfidence conf =
     (let c = toLowerCase conf in
      if str_includes c ''verif'' then Verified
      else if str_includes c ''high'' then High
      else if str_includes c ''low'' then Low
      else Estimated)"

text \<open>The callback of \<open>rawLeads.map\<close>; \<open>uuid\<close> is the value of \<open>crypto.randomUUID()\<close>.\<close>

definition normalize :: "string \<Rightarrow> raw_lead \<Rightarrow> lead" where
  "normalize uuid l =
     \<lparr> lead_id = uuid,
       firstName = or_default (raw_firstName l) ''Unknown'',
       lastName = or_default (raw_lastName l) [],
       email = or_default (raw_email l) ''NULL'',
       phone = or_default (raw_phone l) ''NULL'',
       jobTitle = or_default (raw_jobTitle l) ''Unknown'',
       companyName = or_default (raw_companyName l) ''Unknown'',
       location = or_default (raw_location l) ''Unknown'',
       linkedin = or_default (raw_linkedin l) [],
       website = or_default (raw_website l) [],
       emailConfidence = mapConfidence (or_default (raw_emailConfidence l) ''Low''),
       source = Some ''Gemini Search'' \<rparr>"

text \<open>
  The values \<open>error.status\<close> and \<open>error.code\<close> can take. Numbers are integers here;
  fractions and NaN are outside the model.
\<close>

datatype jsval = JUndefined | JNull | JBool bool | JNum int | JStr string

fun truthy :: "jsval \<Rightarrow> bool" where
  "truthy JUndefined = False"
| "truthy JNull = False"
| "truthy (JBool b) = b"
| "truthy (JNum n) = (n \<noteq> 0)"
| "truthy (JStr s) = (s \<noteq> [])"

definition js_or :: "jsval \<Rightarrow> jsval \<Rightarrow> jsval" where
  "js_or a b = (if truthy a then a else b)"

text \<open>
  What the \<open>catch\<close> block reads of the error the provider call threw: its message (a
  string, empty when there is none), its properties \<open>status\<close> and \<open>code\<close>, and
  \<open>errBody\<close>, the
  result of \<open>JSON.stringify(error, Object.getOwnPropertyNames(error))\<close>.
\<close>

record js_error =
  message :: string
  err_status :: jsval
  err_code :: jsval
  errBody :: string

text \<open>What \<open>findLeads\<close> throws: an error it creates, or the provider's error again.\<close>

datatype thrown = NewError string | Rethrown js_error

fun thrown_message :: "thrown \<Rightarrow> string" where
  "thrown_message (NewError m) = m"
| "thrown_message (Rethrown e) = message e"

definition isQuotaError :: "js_error \<Rightarrow> bool" where
  "isQuotaError error =
     (let msg = (if message error = [] then [] else message error);
          st = js_or (err_status error) (err_code error)
      in str_includes msg ''RESOURCE_EXHAUSTED'' \<or>
         str_includes msg ''429'' \<or>
         str_includes msg ''quota'' \<or>
         st = JNum 429 \<or>
         str_includes (errBody error) ''RESOURCE_EXHAUSTED'' \<or>
         str_includes (errBody error) ''search_grounding_request_per_project_per_day_per_user'')"

text \<open>
  What happens inside the \<open>try\<close> block: something is thrown (the provider rejects the
  call, or its text does not parse), or the text parses to the array of records.
\<close>

datatype provider_reply = Rejects js_error | Responds "raw_lead list"

text \<open>
  \<open>findLeads\<close>. \<open>hasApiKey\<close> is \<open>process.env.API_KEY\<close> being set, \<open>reply\<close> the provider's
  answer to the prompt built from the criteria and the known identifiers, and
  \<open>uuid i\<close> the identifier drawn for the \<open>i\<close>-th record.
\<close>

definition findLeads :: "bool \<Rightarrow> provider_reply \<Rightarrow> (nat \<Rightarrow> string) \<Rightarrow> thrown + lead list" where
  "findLeads hasApiKey reply uuid =
     (if \<not> hasApiKey then Inl (NewError ''API Key is missing'')
      else case reply of
        Responds rawLeads \<Rightarrow> Inr (map (\<lambda>(i, l). normalize (uuid i) l) (enumerate 0 rawLeads))
      | Rejects error \<Rightarrow>
          if isQuotaError error then Inl (NewError ''QUOTA_EXCEEDED'') else Inl (Rethrown error))"

section \<open>The controller (\<open>App\<close>)\<close>

text \<open>
  The value under a key of \<open>localStorage\<close>: the JSON text of a lead collection, kept as the
  collection it serialises, or a text that \<open>JSON.parse\<close> rejects.
\<close>

datatype stored = Saved "lead list" | Corrupt

definition storageKey :: string where
  "storageKey = ''hasan_scout_leads''"

text \<open>The component's state hooks, together with the browser's store.\<close>

record app =
  leads :: "lead list"
  status :: ScoutStatus
  currentCriteria :: "SearchCriteria option"
  quotaHit :: bool
  storage :: "string \<rightharpoonup> stored"

definition setStatus :: "(ScoutStatus \<Rightarrow> ScoutStatus) \<Rightarrow> app \<Rightarrow> app" where
  "setStatus f s = s\<lparr>status := f (status s)\<rparr>"

text \<open>
  The effect with dependency \<open>[leads]\<close>: React runs it after every render in which \<open>leads\<close>
  is a new array, so it follows each transition that calls \<open>setLeads\<close>.
\<close>

definition leadsEffect :: "app \<Rightarrow> app" where
  "leadsEffect s =
     setStatus (\<lambda>prev. prev\<lparr>totalFound := length (leads s)\<rparr>)
       (s\<lparr>storage := (storage s)(storageKey \<mapsto> Saved (leads s))\<rparr>)"

definition addLog :: "string \<Rightarrow> app \<Rightarrow> app" where
  "addLog msg s = setStatus (\<lambda>prev. prev\<lparr>logs := take 5 (msg # logs prev)\<rparr>) s"

text \<open>The first render over a store \<open>st\<close>, before any effect has run.\<close>

definition initial :: "(string \<rightharpoonup> stored) \<Rightarrow> app" where
  "initial st =
     \<lparr> leads = [],
       status = \<lparr> isSearching = False, isLooping = False, totalFound = 0,
                  lastSearchTime = None, logs = [] \<rparr>,
       currentCriteria = None,
       quotaHit = False,
       storage = st \<rparr>"

text \<open>
  Mounting runs both effects on the first render; when the saved text parses, \<open>setLeads\<close>
  causes a second render and the \<open>[leads]\<close> effect runs again.
\<close>

definition mount :: "(string \<rightharpoonup> stored) \<Rightarrow> app" where
  "mount st =
     (let s0 = leadsEffect (initial st) in
      case st storageKey of
        Some (Saved parsed) \<Rightarrow> leadsEffect (s0\<lparr>leads := parsed\<rparr>)
      | Some Corrupt \<Rightarrow> s0
      | None \<Rightarrow> s0)"

subsection \<open>\<open>executeSearch\<close>\<close>

definition existingIds :: "lead list \<Rightarrow> string set" where
  "existingIds ls = set (map (\<lambda>l. if email l = ''NULL'' then linkedin l else email l) ls)"

definition validatedLeads :: "lead list \<Rightarrow> lead list" where
  "validatedLeads newLeads =
     map (\<lambda>lead. if email lead \<noteq> ''NULL'' \<and> \<not> isValidEmail (email lead)
                then lead\<lparr>email := ''NULL'', emailConfidence := Low\<rparr>
                else lead) newLeads"

definition uniqueNewLeads :: "string set \<Rightarrow> lead list \<Rightarrow> lead list" where
  "uniqueNewLeads ids validated =
     filter (\<lambda>lead. let i = (if email lead \<noteq> ''NULL'' then email lead else linkedin lead)
                   in if i = [] then True else i \<notin> ids) validated"

text \<open>
  \<open>executeSearch\<close> awaits the gateway, so it is two transitions. The first runs up to the
  call; the second runs when the call settles, with \<open>snapshot\<close> the collection the closure
  captured at the start, \<open>outcome\<close> what \<open>findLeads\<close> returned or threw, and \<open>now\<close>
  the value of \<open>new Date().toLocaleTimeString()\<close>. Each returns the alert it raises, if any.
\<close>

definition executeSearch_begin :: "app \<Rightarrow> string option \<times> app" where
  "executeSearch_begin s =
     (if quotaHit s then (Some ''Daily quota reached. Please try again tomorrow.'', s)
      else (None, addLog ''Initiating Scout Sequence...''
                    (setStatus (\<lambda>prev. prev\<lparr>isSearching := True\<rparr>) s)))"

definition quotaAlert :: string where
  "quotaAlert = ''DAILY LIMIT REACHED: Google Search Grounding quota exceeded.''
     @ [CHR 0x0A, CHR 0x0A] @ ''Automation paused. Try again in 24 hours.''"

definition executeSearch_settle ::
  "lead list \<Rightarrow> thrown + lead list \<Rightarrow> string \<Rightarrow> app \<Rightarrow> string option \<times> app" where
  "executeSearch_settle snapshot outcome now s =
     (case outcome of
        Inr newLeads \<Rightarrow>
          (let unique = uniqueNewLeads (existingIds snapshot) (validatedLeads newLeads);
               s1 = (if length unique > 0
                     then addLog (''Scout returned '' @ string_of_nat (length unique) @ '' new agents.'')
                            (s\<lparr>leads := unique @ leads s\<rparr>)
                     else addLog ''Scout returned no new unique leads this cycle.'' s);
               s2 = setStatus (\<lambda>prev. prev\<lparr>isSearching := False, lastSearchTime := Some now\<rparr>) s1
           in (None, if length unique > 0 then leadsEffect s2 else s2))
      | Inl error \<Rightarrow>
          if thrown_message error = ''QUOTA_EXCEEDED''
          then (Some quotaAlert,
                addLog ''CRITICAL: Daily Search Quota Hit (100/day). Pausing.''
                  ((setStatus (\<lambda>prev. prev\<lparr>isLooping := False, isSearching := False\<rparr>) s)
                     \<lparr>quotaHit := True\<rparr>))
          else (None, setStatus (\<lambda>prev. prev\<lparr>isSearching := False\<rparr>)
                        (addLog ''Scout encountered an error.'' s)))"

text \<open>A whole cycle with nothing in between: the snapshot is the collection at the start.\<close>

definition executeSearch :: "thrown + lead list \<Rightarrow> string \<Rightarrow> app \<Rightarrow> string option \<times> app" where
  "executeSearch outcome now s =
     (if quotaHit s then executeSearch_begin s
      else executeSearch_settle (leads s) outcome now (snd (executeSearch_begin s)))"

subsection \<open>The other handlers\<close>

definition handleSearch :: "SearchCriteria \<Rightarrow> app \<Rightarrow> string option \<times> app" where
  "handleSearch criteria s = executeSearch_begin (s\<lparr>currentCriteria := Some criteria\<rparr>)"

text \<open>
  The callback of the 60-second interval. The interval exists only while the condition of
  its effect holds; otherwise no tick happens.
\<close>

definition tick :: "app \<Rightarrow> app" where
  "tick s =
     (case currentCriteria s of
        None \<Rightarrow> s
      | Some criteria \<Rightarrow>
          if isLooping (status s) \<and> \<not> isSearching (status s) \<and> \<not> quotaHit s
          then (if length (leads s) < resultsAmount criteria
                then snd (executeSearch_begin s)
                else addLog ''Goal reached. Looping disabled.''
                       (setStatus (\<lambda>prev. prev\<lparr>isLooping := False\<rparr>) s))
          else s)"

definition toggleLoop :: "app \<Rightarrow> string option \<times> app" where
  "toggleLoop s =
     (if currentCriteria s = None \<and> \<not> isLooping (status s)
      then (Some ''Please perform a search first to set criteria.'', s)
      else if quotaHit s then (Some ''Cannot loop: Quota exceeded.'', s)
      else (None, setStatus (\<lambda>prev. prev\<lparr>isLooping := \<not> isLooping prev\<rparr>) s))"

definition copyEmails :: "app \<Rightarrow> app" where
  "copyEmails s = addLog ''Valid emails copied to clipboard.'' s"

text \<open>
  \<open>clearData\<close>; \<open>confirmed\<close> is the answer to \<open>window.confirm\<close>. The handler queues
  \<open>setLeads([])\<close> and removes the key at once; the render that follows runs the \<open>[leads]\<close>
  effect.
\<close>

definition clearData :: "bool \<Rightarrow> app \<Rightarrow> app" where
  "clearData confirmed s =
     (if confirmed
      then leadsEffect (s\<lparr>leads := [], storage := (storage s)(storageKey := None)\<rparr>)
      else s)"

subsection \<open>Transitions and reachable states\<close>

text \<open>
  Every handler runs to completion on the state the previous one left. Any handler may run
  in any state, and a pending search may settle at any time, with any captured snapshot
  and any outcome: the relation covers every interleaving of user actions, timer ticks
  and settling calls.
\<close>

inductive transition :: "app \<Rightarrow> app \<Rightarrow> bool" where
  t_handleSearch: "transition s (snd (handleSearch criteria s))"
| t_findMore: "transition s (snd (executeSearch_begin s))"
| t_settle: "transition s (snd (executeSearch_settle snapshot outcome now s))"
| t_tick: "transition s (tick s)"
| t_toggleLoop: "transition s (snd (toggleLoop s))"
| t_copyEmails: "transition s (copyEmails s)"
| t_clearData: "transition s (clearData confirmed s)"

inductive reachable :: "app \<Rightarrow> bool" where
  r_mount: "reachable (mount st)"
| r_step: "reachable s \<Longrightarrow> transition s s' \<Longrightarrow> reachable s'"

section \<open>The specification's notions\<close>

text \<open>
  An address is a local part, an \<open>@\<close>, and a domain. \<open>split_on\<close> cuts a string at every
  occurrence of a separator.
\<close>

fun split_on :: "char \<Rightarrow> string \<Rightarrow> string list" where
  "split_on d [] = [[]]"
| "split_on d (c # cs) =
     (if c = d then [] # split_on d cs
      else (c # hd (split_on d cs)) # tl (split_on d cs))"

text \<open>A local part is a run of non-empty atoms separated by dots, or a quoted string.\<close>

definition dot_atoms :: "string \<Rightarrow> bool" where
  "dot_atoms l = (\<forall>seg \<in> set (split_on CHR ''.'' l). seg \<noteq> [] \<and> (\<forall>c \<in> set seg. atext c))"

definition quoted_string :: "string \<Rightarrow> bool" where
  "quoted_string l =
     (\<exists>m. l = dquote # m @ [dquote] \<and> m \<noteq> [] \<and> (\<forall>c \<in> set m. \<not> line_terminator c))"

definition local_part :: "string \<Rightarrow> bool" where
  "local_part l = (dot_atoms l \<or> quoted_string l)"

text \<open>
  A host name has at least one dot: two or more labels, each a non-empty run of letters,
  digits and hyphens, and the last one, the top-level domain, at least two letters.
\<close>

definition hostname :: "string \<Rightarrow> bool" where
  "hostname d =
     (let labels = split_on CHR ''.'' d; tld = last labels
      in 2 \<le> length labels \<and>
         (\<forall>l \<in> set (butlast labels). l \<noteq> [] \<and> (\<forall>c \<in> set l. ldh c)) \<and>
         2 \<le> length tld \<and> (\<forall>c \<in> set tld. letter c))"

text \<open>A bracketed literal of four dot-separated groups of one to three digits.\<close>

definition ip_literal :: "string \<Rightarrow> bool" where
  "ip_literal d =
     (\<exists>body. d = CHR ''['' # body @ '']'' \<and>
        (let groups = split_on CHR ''.'' body
         in length groups = 4 \<and>
            (\<forall>g \<in> set groups. 1 \<le> length g \<and> length g \<le> 3 \<and> (\<forall>c \<in> set g. digit c))))"

definition domain_part :: "string \<Rightarrow> bool" where
  "domain_part d = (ip_literal d \<or> hostname d)"

text \<open>
  The grammar as the specification words it: a local part, an \<open>@\<close>, and a domain with at
  least one dot and a top-level domain of length at least 2.
\<close>

definition spec_address_grammar :: "string \<Rightarrow> bool" where
  "spec_address_grammar e = (\<exists>l d. e = l @ ''@'' @ d \<and> local_part l \<and> hostname d)"

text \<open>The grammar of the validator's pattern: the domain may also be a bracketed literal.\<close>

definition address_grammar :: "string \<Rightarrow> bool" where
  "address_grammar e = (\<exists>l d. e = l @ ''@'' @ d \<and> local_part l \<and> domain_part d)"

text \<open>
  A lead's identifier in the specification's terms: the e-mail when it is not the
  sentinel, otherwise the linkedin value, and none when that is empty.
\<close>

definition lead_identifier :: "lead \<Rightarrow> string option" where
  "lead_identifier l =
     (if email l \<noteq> ''NULL'' then Some (email l)
      else if linkedin l \<noteq> [] then Some (linkedin l)
      else None)"

section \<open>Example inputs\<close>

text \<open>A provider record with no property at all.\<close>

definition no_fields :: raw_lead where
  "no_fields =
     \<lparr> raw_firstName = None, raw_lastName = None, raw_email = None, raw_phone = None,
       raw_jobTitle = None, raw_companyName = None, raw_location = None,
       raw_linkedin = None, raw_website = None, raw_emailConfidence = None \<rparr>"

text \<open>A provider record whose only property is a confidence text that names no level.\<close>

definition unsure_confidence :: raw_lead where
  "unsure_confidence = no_fields\<lparr>raw_emailConfidence := Some ''Unsure''\<rparr>"

text \<open>An error whose message names the quota with a capital letter, and nothing else.\<close>

definition quota_upper :: js_error where
  \<open>quota_upper =
     \<lparr> message = ''Quota limit reached'', err_status = JUndefined, err_code = JUndefined,
       errBody = ''{"stack":"Error: Quota limit reached","message":"Quota limit reached"}'' \<rparr>\<close>

text \<open>The error of the specification's quota scenario.\<close>

definition resource_exhausted :: js_error where
  \<open>resource_exhausted =
     \<lparr> message = ''429 RESOURCE_EXHAUSTED'', err_status = JNum 429, err_code = JUndefined,
       errBody = ''{"stack":"Error: 429 RESOURCE_EXHAUSTED","message":"429 RESOURCE_EXHAUSTED","status":429}'' \<rparr>\<close>

text \<open>Leads: one with a malformed e-mail, two that share a valid e-mail, one without identifier.\<close>

definition sample_lead :: "string \<Rightarrow> string \<Rightarrow> string \<Rightarrow> confidence \<Rightarrow> lead" where
  "sample_lead i e li c =
     \<lparr> lead_id = i, firstName = ''Ada'', lastName = ''Byron'', email = e, phone = ''NULL'',
       jobTitle = ''CTO'', companyName = ''Acme'', location = ''London'', linkedin = li,
       website = [], emailConfidence = c, source = Some ''Gemini Search'' \<rparr>"

definition bad_lead :: lead where
  "bad_lead = sample_lead ''id-1'' ''bad@@@x'' [] Verified"

definition twin_a :: lead where
  "twin_a = sample_lead ''id-2'' ''a@b.co'' [] High"

definition twin_b :: lead where
  "twin_b = sample_lead ''id-3'' ''a@b.co'' [] High"

definition anonymous_lead :: lead where
  "anonymous_lead = sample_lead ''id-4'' ''NULL'' [] Estimated"

text \<open>A lead with a valid e-mail that no other lead carries.\<close>

definition fresh_lead :: lead where
  "fresh_lead = sample_lead ''id-5'' ''c@d.io'' [] High"

text \<open>Criteria, and two states: after a quota failure, and after a search that found the twins.\<close>

definition sample_criteria :: SearchCriteria where
  "sample_criteria =
     \<lparr> targetRoles = ''CTO'', crit_keywords = ''SaaS'', industries = ''Technology'',
       crit_location = ''London'', includeContactInfo = True, resultsAmount = 50 \<rparr>"

definition halted :: app where
  "halted =
     snd (executeSearch_settle [] (Inl (NewError ''QUOTA_EXCEEDED'')) ''10:00:00''
            (snd (handleSearch sample_criteria (mount Map.empty))))"

definition after_twins :: app where
  "after_twins = snd (executeSearch (Inr [twin_a, twin_b]) ''10:00:00'' (mount Map.empty))"

section \<open>The e-mail validator\<close>

subsection \<open>The matcher decides the language\<close>

lemma nullable_lang: "nullable r \<longleftrightarrow> [] \<in> lang r"
  by (induction r) (auto intro: star_nil)

lemma star_Cons_split:
  assumes "x \<in> star A" and "x = c # w"
  shows "\<exists>u v. w = u @ v \<and> c # u \<in> A \<and> v \<in> star A"
  using assms
proof (induction arbitrary: w rule: star.induct)
  case star_nil
  then show ?case by simp
next
  case (star_app u v)
  show ?case
  proof (cases u)
    case Nil
    with star_app show ?thesis by simp
  next
    case (Cons a u')
    with star_app have "w = u' @ v" "c # u' \<in> A" by auto
    with star_app(2) show ?thesis by blast
  qed
qed

lemma star_Cons_iff:
  "c # w \<in> star A \<longleftrightarrow> (\<exists>u v. w = u @ v \<and> c # u \<in> A \<and> v \<in> star A)"
proof
  assume "c # w \<in> star A"
  then show "\<exists>u v. w = u @ v \<and> c # u \<in> A \<and> v \<in> star A"
    by (rule star_Cons_split) simp
next
  assume "\<exists>u v. w = u @ v \<and> c # u \<in> A \<and> v \<in> star A"
  then obtain u v where "w = u @ v" "c # u \<in> A" "v \<in> star A" by blast
  then show "c # w \<in> star A"
    using star_app [of "c # u" A v] by simp
qed

lemma deriv_lang: "w \<in> lang (deriv c r) \<longleftrightarrow> c # w \<in> lang r"
proof (induction r arbitrary: w)
  case (Cat r s)
  show ?case
  proof (cases "nullable r")
    case True
    then have "[] \<in> lang r" by (simp add: nullable_lang)
    then show ?thesis
      using Cat True by (auto simp: Cons_eq_append_conv)
  next
    case False
    then have "[] \<notin> lang r" by (simp add: nullable_lang)
    then show ?thesis
      using Cat False by (auto simp: Cons_eq_append_conv)
  qed
next
  case (Star r)
  then show ?case by (auto simp: star_Cons_iff)
qed auto

lemma re_test_lang: "re_test r w \<longleftrightarrow> w \<in> lang r"
  by (induction w arbitrary: r) (simp_all add: nullable_lang deriv_lang)

subsection \<open>Languages of the building blocks\<close>

lemma star_concat: "(\<And>x. x \<in> set xs \<Longrightarrow> x \<in> A) \<Longrightarrow> concat xs \<in> star A"
  by (induction xs) (auto intro: star_nil star_app)

lemma star_pieces: "w \<in> star A \<longleftrightarrow> (\<exists>ws. w = concat ws \<and> set ws \<subseteq> A)"
proof
  assume "w \<in> star A"
  then show "\<exists>ws. w = concat ws \<and> set ws \<subseteq> A"
  proof (induction rule: star.induct)
    case star_nil
    have "[] = concat [] \<and> set [] \<subseteq> A" by simp
    then show ?case by blast
  next
    case (star_app u v)
    then obtain ws where "v = concat ws" "set ws \<subseteq> A" by blast
    with star_app(1) have "u @ v = concat (u # ws) \<and> set (u # ws) \<subseteq> A" by simp
    then show ?case by blast
  qed
next
  assume "\<exists>ws. w = concat ws \<and> set ws \<subseteq> A"
  then show "w \<in> star A" by (auto intro: star_concat)
qed

lemma star_class: "w \<in> star {[c] | c. P c} \<longleftrightarrow> (\<forall>c \<in> set w. P c)"
proof
  assume "w \<in> star {[c] | c. P c}"
  then show "\<forall>c \<in> set w. P c"
    by (induction rule: star.induct) auto
next
  assume "\<forall>c \<in> set w. P c"
  then show "w \<in> star {[c] | c. P c}"
  proof (induction w)
    case Nil
    show ?case by (rule star_nil)
  next
    case (Cons a w)
    then have "[a] \<in> {[c] | c. P c}" "w \<in> star {[c] | c. P c}" by auto
    then show ?case using star_app [of "[a]" _ w] by simp
  qed
qed

lemma lang_Cat_iff: "w \<in> lang (Cat r s) \<longleftrightarrow> (\<exists>u v. w = u @ v \<and> u \<in> lang r \<and> v \<in> lang s)"
  by auto

lemma lang_Cat_Class:
  "w \<in> lang (Cat (Class P) r) \<longleftrightarrow> (\<exists>c v. w = c # v \<and> P c \<and> v \<in> lang r)"
proof
  assume "w \<in> lang (Cat (Class P) r)"
  then show "\<exists>c v. w = c # v \<and> P c \<and> v \<in> lang r" by auto
next
  assume "\<exists>c v. w = c # v \<and> P c \<and> v \<in> lang r"
  then obtain c v where "w = [c] @ v" "P c" "v \<in> lang r" by auto
  then have "\<exists>u v'. w = u @ v' \<and> u \<in> lang (Class P) \<and> v' \<in> lang r"
    by (intro exI [of _ "[c]"] exI [of _ v]) simp
  then show "w \<in> lang (Cat (Class P) r)" by auto
qed

lemma lang_Lit: "lang (Lit c) = {[c]}"
  by (auto simp: Lit_def)

lemma lang_Cat_Lit: "w \<in> lang (Cat (Lit c) r) \<longleftrightarrow> (\<exists>v. w = c # v \<and> v \<in> lang r)"
  unfolding Lit_def lang_Cat_Class by auto

lemma lang_Plus1_class:
  "w \<in> lang (Plus1 (Class P)) \<longleftrightarrow> w \<noteq> [] \<and> (\<forall>c \<in> set w. P c)"
  unfolding Plus1_def lang_Cat_Class
  by (cases w) (auto simp: star_class)

lemma lang_Plus1_pieces:
  "w \<in> lang (Plus1 r) \<longleftrightarrow> (\<exists>ws. ws \<noteq> [] \<and> w = concat ws \<and> set ws \<subseteq> lang r)"
proof
  assume "w \<in> lang (Plus1 r)"
  then obtain u v where "w = u @ v" "u \<in> lang r" "v \<in> star (lang r)"
    by (auto simp: Plus1_def)
  then obtain ws where "v = concat ws" "set ws \<subseteq> lang r"
    using star_pieces [of v "lang r"] by blast
  with \<open>w = u @ v\<close> \<open>u \<in> lang r\<close>
  have "u # ws \<noteq> [] \<and> w = concat (u # ws) \<and> set (u # ws) \<subseteq> lang r" by simp
  then show "\<exists>ws. ws \<noteq> [] \<and> w = concat ws \<and> set ws \<subseteq> lang r" by blast
next
  assume "\<exists>ws. ws \<noteq> [] \<and> w = concat ws \<and> set ws \<subseteq> lang r"
  then obtain u ws where "w = concat (u # ws)" "set (u # ws) \<subseteq> lang r"
    by (metis list.exhaust)
  then have "w = u @ concat ws" "u \<in> lang r" "concat ws \<in> star (lang r)"
    by (auto intro: star_concat)
  then show "w \<in> lang (Plus1 r)"
    unfolding Plus1_def lang_Cat_iff by auto
qed

lemma lang_AtLeast2_class:
  "w \<in> lang (AtLeast2 (Class P)) \<longleftrightarrow> 2 \<le> length w \<and> (\<forall>c \<in> set w. P c)"
proof (cases w)
  case Nil
  then show ?thesis by (simp add: AtLeast2_def)
next
  case (Cons a v)
  then show ?thesis
    unfolding AtLeast2_def lang_Cat_Class
    by (cases v) (auto simp: star_class)
qed

lemma lang_Rep1to3_class:
  "w \<in> lang (Rep1to3 (Class P)) \<longleftrightarrow> 1 \<le> length w \<and> length w \<le> 3 \<and> (\<forall>c \<in> set w. P c)"
proof -
  have opt: "v \<in> lang (Or Empty (Class P)) \<longleftrightarrow> length v \<le> 1 \<and> (\<forall>c \<in> set v. P c)" for v
    by (cases v) auto
  have two: "v \<in> lang (Or Empty (Cat (Class P) (Or Empty (Class P)))) \<longleftrightarrow>
      length v \<le> 2 \<and> (\<forall>c \<in> set v. P c)" for v
  proof (cases v)
    case Nil
    then show ?thesis by simp
  next
    case (Cons a u)
    have "v \<in> lang (Or Empty (Cat (Class P) (Or Empty (Class P)))) \<longleftrightarrow>
        v \<in> lang (Cat (Class P) (Or Empty (Class P)))"
      using Cons by simp
    also have "\<dots> \<longleftrightarrow> P a \<and> u \<in> lang (Or Empty (Class P))"
      unfolding lang_Cat_Class using Cons by simp
    also have "\<dots> \<longleftrightarrow> length v \<le> 2 \<and> (\<forall>c \<in> set v. P c)"
      unfolding opt using Cons by auto
    finally show ?thesis .
  qed
  show ?thesis
  proof (cases w)
    case Nil
    then show ?thesis unfolding Rep1to3_def lang_Cat_Class by simp
  next
    case (Cons a v)
    have "w \<in> lang (Rep1to3 (Class P)) \<longleftrightarrow>
        P a \<and> v \<in> lang (Or Empty (Cat (Class P) (Or Empty (Class P))))"
      unfolding Rep1to3_def lang_Cat_Class using Cons by simp
    also have "\<dots> \<longleftrightarrow> 1 \<le> length w \<and> length w \<le> 3 \<and> (\<forall>c \<in> set w. P c)"
      unfolding two using Cons by auto
    finally show ?thesis .
  qed
qed

subsection \<open>Cutting at a separator\<close>

lemma split_on_not_Nil: "split_on d w \<noteq> []"
  by (induction w) auto

lemma split_on_free: "d \<notin> set a \<Longrightarrow> split_on d a = [a]"
  by (induction a) auto

lemma split_on_append: "d \<notin> set a \<Longrightarrow> split_on d (a @ d # x) = a # split_on d x"
  by (induction a) auto

lemma split_on_join_head:
  "hd (split_on d w) @ concat (map ((#) d) (tl (split_on d w))) = w"
proof (induction w)
  case Nil
  show ?case by simp
next
  case (Cons c w)
  obtain h t where ht: "split_on d w = h # t"
    using split_on_not_Nil [of d w] by (cases "split_on d w") auto
  with Cons show ?case by auto
qed

lemma split_on_join_last:
  "concat (map (\<lambda>l. l @ [d]) (butlast (split_on d w))) @ last (split_on d w) = w"
proof (induction w)
  case Nil
  show ?case by simp
next
  case (Cons c w)
  obtain h t where ht: "split_on d w = h # t"
    using split_on_not_Nil [of d w] by (cases "split_on d w") auto
  show ?case
  proof (cases "c = d")
    case True
    with Cons ht show ?thesis by simp
  next
    case False
    with Cons ht show ?thesis by (cases t) auto
  qed
qed

lemma split_on_joined_head:
  "d \<notin> set a \<Longrightarrow> (\<And>seg. seg \<in> set segs \<Longrightarrow> d \<notin> set seg) \<Longrightarrow>
     split_on d (a @ concat (map ((#) d) segs)) = a # segs"
proof (induction segs arbitrary: a)
  case Nil
  then show ?case by (simp add: split_on_free)
next
  case (Cons x xs)
  have "split_on d (x @ concat (map ((#) d) xs)) = x # xs"
    using Cons.IH [of x] Cons.prems(2) by simp
  then show ?case
    using split_on_append [OF Cons.prems(1), of "x @ concat (map ((#) d) xs)"] by simp
qed

lemma split_on_joined_last:
  "(\<And>l. l \<in> set labs \<Longrightarrow> d \<notin> set l) \<Longrightarrow> d \<notin> set x \<Longrightarrow>
     split_on d (concat (map (\<lambda>l. l @ [d]) labs) @ x) = labs @ [x]"
proof (induction labs)
  case Nil
  then show ?case by (simp add: split_on_free)
next
  case (Cons l ls)
  have "split_on d (concat (map (\<lambda>l. l @ [d]) ls) @ x) = ls @ [x]"
    using Cons by simp
  moreover have "d \<notin> set l" using Cons.prems(1) by simp
  ultimately show ?case
    using split_on_append [of d l "concat (map (\<lambda>l. l @ [d]) ls) @ x"] by simp
qed

subsection \<open>The four parts of the pattern\<close>

lemma atext_not_dot: "atext c \<Longrightarrow> c \<noteq> CHR ''.''"
  by (simp add: atext_def)

lemma ldh_not_dot: "ldh c \<Longrightarrow> c \<noteq> CHR ''.''"
  by (auto simp: ldh_def letter_def digit_def in_range_def)

lemma letter_not_dot: "letter c \<Longrightarrow> c \<noteq> CHR ''.''"
  by (auto simp: letter_def in_range_def)

lemma digit_not_dot: "digit c \<Longrightarrow> c \<noteq> CHR ''.''"
  by (auto simp: digit_def in_range_def)

lemma lang_dot_atoms: "l \<in> lang re_dot_atoms \<longleftrightarrow> dot_atoms l"
proof
  assume "l \<in> lang re_dot_atoms"
  then obtain a t where l: "l = a @ t" and a: "a \<in> lang (Plus1 (Class atext))"
    and t: "t \<in> star (lang (Cat (Lit CHR ''.'') (Plus1 (Class atext))))"
    by (auto simp: re_dot_atoms_def)
  from t obtain ws where ws: "t = concat ws"
    "set ws \<subseteq> lang (Cat (Lit CHR ''.'') (Plus1 (Class atext)))"
    using star_pieces by blast
  have form: "\<exists>seg. x = CHR ''.'' # seg \<and> seg \<noteq> [] \<and> (\<forall>c \<in> set seg. atext c)"
    if "x \<in> set ws" for x
  proof -
    have "x \<in> lang (Cat (Lit CHR ''.'') (Plus1 (Class atext)))"
      using that ws(2) by blast
    then show ?thesis
      unfolding lang_Cat_Lit lang_Plus1_class by simp
  qed
  have "map ((#) CHR ''.'') (map tl ws) = ws"
  proof -
    have "(CHR ''.'' # tl x) = x" if "x \<in> set ws" for x
      using form [OF that] by auto
    then have "map (\<lambda>x. CHR ''.'' # tl x) ws = ws"
      by (intro map_idI) simp
    then show ?thesis by (simp add: comp_def)
  qed
  then have t': "t = concat (map ((#) CHR ''.'') (map tl ws))"
    using ws(1) by simp
  have segs: "seg \<noteq> [] \<and> (\<forall>c \<in> set seg. atext c)" if "seg \<in> set (map tl ws)" for seg
  proof -
    from that obtain x where "x \<in> set ws" "seg = tl x" by auto
    with form [of x] show ?thesis by auto
  qed
  have a': "a \<noteq> [] \<and> (\<forall>c \<in> set a. atext c)"
    using a by (simp add: lang_Plus1_class)
  have "split_on CHR ''.'' l = a # map tl ws"
    unfolding l t'
    by (rule split_on_joined_head) (use a' segs atext_not_dot in blast)+
  then show "dot_atoms l"
    using a' segs by (auto simp: dot_atoms_def)
next
  assume d: "dot_atoms l"
  let ?segs = "split_on CHR ''.'' l"
  have ok: "seg \<noteq> [] \<and> (\<forall>c \<in> set seg. atext c)" if "seg \<in> set ?segs" for seg
    using d that by (auto simp: dot_atoms_def)
  have hd_in: "hd ?segs \<in> set ?segs"
    using split_on_not_Nil by simp
  have tl_in: "seg \<in> set ?segs" if "seg \<in> set (tl ?segs)" for seg
    using that by (rule list.set_sel(2) [OF split_on_not_Nil])
  have 1: "hd ?segs \<in> lang (Plus1 (Class atext))"
    using ok [OF hd_in] by (simp add: lang_Plus1_class)
  have 2: "concat (map ((#) CHR ''.'') (tl ?segs))
      \<in> star (lang (Cat (Lit CHR ''.'') (Plus1 (Class atext))))"
  proof (rule star_concat)
    fix x assume "x \<in> set (map ((#) CHR ''.'') (tl ?segs))"
    then obtain seg where "x = CHR ''.'' # seg" "seg \<in> set (tl ?segs)" by auto
    then show "x \<in> lang (Cat (Lit CHR ''.'') (Plus1 (Class atext)))"
      unfolding lang_Cat_Lit lang_Plus1_class using ok [OF tl_in] by simp
  qed
  have "l = hd ?segs @ concat (map ((#) CHR ''.'') (tl ?segs))"
    by (simp add: split_on_join_head)
  then show "l \<in> lang re_dot_atoms"
    unfolding re_dot_atoms_def lang_Cat_iff using 1 2 by auto
qed

lemma lang_quoted: "l \<in> lang re_quoted \<longleftrightarrow> quoted_string l"
proof
  assume "l \<in> lang re_quoted"
  then obtain v where "l = dquote # v"
    "v \<in> lang (Cat (Plus1 (Class (\<lambda>c. \<not> line_terminator c))) (Lit dquote))"
    unfolding re_quoted_def lang_Cat_Lit by blast
  then obtain m where "l = dquote # m @ [dquote]" "m \<in> lang (Plus1 (Class (\<lambda>c. \<not> line_terminator c)))"
    unfolding lang_Cat_iff lang_Lit by auto
  then show "quoted_string l"
    unfolding lang_Plus1_class quoted_string_def by blast
next
  assume "quoted_string l"
  then obtain m where m: "l = dquote # m @ [dquote]" "m \<noteq> []" "\<forall>c \<in> set m. \<not> line_terminator c"
    unfolding quoted_string_def by blast
  then have "m \<in> lang (Plus1 (Class (\<lambda>c. \<not> line_terminator c)))"
    by (simp add: lang_Plus1_class)
  then have "m @ [dquote] \<in> lang (Cat (Plus1 (Class (\<lambda>c. \<not> line_terminator c))) (Lit dquote))"
    unfolding lang_Cat_iff lang_Lit by blast
  then show "l \<in> lang re_quoted"
    unfolding re_quoted_def lang_Cat_Lit using m(1) by blast
qed

lemma lang_label: 
  "x \<in> lang (Cat (Plus1 (Class ldh)) (Lit CHR ''.'')) \<longleftrightarrow>
     (\<exists>lab. x = lab @ ''.'' \<and> lab \<noteq> [] \<and> (\<forall>c \<in> set lab. ldh c))"
  unfolding lang_Cat_iff lang_Lit lang_Plus1_class by auto

lemma lang_hostname: "d \<in> lang re_hostname \<longleftrightarrow> hostname d"
proof
  assume "d \<in> lang re_hostname"
  then obtain p tld where d: "d = p @ tld"
    and p: "p \<in> lang (Plus1 (Cat (Plus1 (Class ldh)) (Lit CHR ''.'')))"
    and tld: "tld \<in> lang (AtLeast2 (Class letter))"
    unfolding re_hostname_def lang_Cat_iff by blast
  from p obtain ws where ws: "ws \<noteq> []" "p = concat ws"
    "set ws \<subseteq> lang (Cat (Plus1 (Class ldh)) (Lit CHR ''.''))"
    unfolding lang_Plus1_pieces by blast
  have form: "\<exists>lab. x = lab @ ''.'' \<and> lab \<noteq> [] \<and> (\<forall>c \<in> set lab. ldh c)" if "x \<in> set ws" for x
  proof -
    have "x \<in> lang (Cat (Plus1 (Class ldh)) (Lit CHR ''.''))" using that ws(3) by blast
    then show ?thesis by (simp only: lang_label)
  qed
  have rebuilt: "map (\<lambda>l. l @ ''.'') (map butlast ws) = ws"
  proof -
    have "butlast x @ ''.'' = x" if "x \<in> set ws" for x
      using form [OF that] by auto
    then have "map (\<lambda>x. butlast x @ ''.'') ws = ws"
      by (intro map_idI) simp
    then show ?thesis by (simp add: comp_def)
  qed
  have labs: "lab \<noteq> [] \<and> (\<forall>c \<in> set lab. ldh c)" if "lab \<in> set (map butlast ws)" for lab
  proof -
    from that obtain x where "x \<in> set ws" "lab = butlast x" by auto
    with form [of x] show ?thesis by auto
  qed
  have t: "2 \<le> length tld" "\<forall>c \<in> set tld. letter c"
    using tld by (simp_all add: lang_AtLeast2_class)
  have "split_on CHR ''.'' (concat (map (\<lambda>l. l @ [CHR ''.'']) (map butlast ws)) @ tld)
      = map butlast ws @ [tld]"
    by (rule split_on_joined_last) (use labs t ldh_not_dot letter_not_dot in blast)+
  then have "split_on CHR ''.'' d = map butlast ws @ [tld]"
    using rebuilt d ws(2) by simp
  moreover have "1 \<le> length ws"
    using ws(1) by (cases ws) auto
  ultimately show "hostname d"
    using labs t by (auto simp: hostname_def Let_def)
next
  assume h: "hostname d"
  let ?labels = "split_on CHR ''.'' d"
  have len: "2 \<le> length ?labels"
    and labs: "\<And>l. l \<in> set (butlast ?labels) \<Longrightarrow> l \<noteq> [] \<and> (\<forall>c \<in> set l. ldh c)"
    and tld: "2 \<le> length (last ?labels)" "\<forall>c \<in> set (last ?labels). letter c"
    using h by (auto simp: hostname_def Let_def)
  have ne: "map (\<lambda>l. l @ ''.'') (butlast ?labels) \<noteq> []"
    using len by (cases ?labels rule: rev_cases) auto
  have "x \<in> lang (Cat (Plus1 (Class ldh)) (Lit CHR ''.''))"
    if "x \<in> set (map (\<lambda>l. l @ ''.'') (butlast ?labels))" for x
  proof -
    from that obtain l where "l \<in> set (butlast ?labels)" "x = l @ ''.''" by auto
    with labs [of l] have "\<exists>lab. x = lab @ ''.'' \<and> lab \<noteq> [] \<and> (\<forall>c \<in> set lab. ldh c)" by blast
    then show ?thesis by (simp only: lang_label)
  qed
  then have "set (map (\<lambda>l. l @ ''.'') (butlast ?labels)) \<subseteq> lang (Cat (Plus1 (Class ldh)) (Lit CHR ''.''))"
    by blast
  then have 1: "concat (map (\<lambda>l. l @ ''.'') (butlast ?labels))
      \<in> lang (Plus1 (Cat (Plus1 (Class ldh)) (Lit CHR ''.'')))"
    unfolding lang_Plus1_pieces using ne by blast
  have 2: "last ?labels \<in> lang (AtLeast2 (Class letter))"
    using tld by (simp add: lang_AtLeast2_class)
  have "d = concat (map (\<lambda>l. l @ ''.'') (butlast ?labels)) @ last ?labels"
    using split_on_join_last [of "CHR ''.''" d] by simp
  then show "d \<in> lang re_hostname"
    unfolding re_hostname_def lang_Cat_iff using 1 2 by blast
qed

lemma lang_group:
  "g \<in> lang (Rep1to3 (Class digit)) \<longleftrightarrow>
     1 \<le> length g \<and> length g \<le> 3 \<and> (\<forall>c \<in> set g. digit c)"
  by (rule lang_Rep1to3_class)

lemma lang_ip_form:
  "d \<in> lang re_ip_literal \<longleftrightarrow>
     (\<exists>g1 g2 g3 g4. d = CHR ''['' # (g1 @ CHR ''.'' # g2 @ CHR ''.'' # g3 @ CHR ''.'' # g4) @ '']'' \<and>
        g1 \<in> lang (Rep1to3 (Class digit)) \<and> g2 \<in> lang (Rep1to3 (Class digit)) \<and>
        g3 \<in> lang (Rep1to3 (Class digit)) \<and> g4 \<in> lang (Rep1to3 (Class digit)))"
  unfolding re_ip_literal_def lang_Cat_Lit lang_Cat_iff lang_Lit
  by (simp add: ex_simps [symmetric] del: ex_simps)

lemma lang_ip_literal: "d \<in> lang re_ip_literal \<longleftrightarrow> ip_literal d"
proof
  assume "d \<in> lang re_ip_literal"
  then obtain g1 g2 g3 g4 where
    d: "d = CHR ''['' # (g1 @ CHR ''.'' # g2 @ CHR ''.'' # g3 @ CHR ''.'' # g4) @ '']''"
    and g: "g1 \<in> lang (Rep1to3 (Class digit))" "g2 \<in> lang (Rep1to3 (Class digit))"
      "g3 \<in> lang (Rep1to3 (Class digit))" "g4 \<in> lang (Rep1to3 (Class digit))"
    unfolding lang_ip_form by blast
  have free: "CHR ''.'' \<notin> set g1" "CHR ''.'' \<notin> set g2" "CHR ''.'' \<notin> set g3" "CHR ''.'' \<notin> set g4"
    using g digit_not_dot unfolding lang_group by blast+
  have "split_on CHR ''.'' (g1 @ CHR ''.'' # g2 @ CHR ''.'' # g3 @ CHR ''.'' # g4) = [g1, g2, g3, g4]"
    using free by (simp add: split_on_append split_on_free)
  then show "ip_literal d"
    unfolding ip_literal_def using d g [unfolded lang_group]
    by (intro exI [of _ "g1 @ CHR ''.'' # g2 @ CHR ''.'' # g3 @ CHR ''.'' # g4"]) simp
next
  assume "ip_literal d"
  then obtain body where d: "d = CHR ''['' # body @ '']''"
    and len: "length (split_on CHR ''.'' body) = 4"
    and ok: "\<And>g. g \<in> set (split_on CHR ''.'' body) \<Longrightarrow>
        1 \<le> length g \<and> length g \<le> 3 \<and> (\<forall>c \<in> set g. digit c)"
    unfolding ip_literal_def Let_def by blast
  from len obtain g1 g2 g3 g4 where s: "split_on CHR ''.'' body = [g1, g2, g3, g4]"
    by (auto simp: length_Suc_conv numeral_eq_Suc)
  have "body = g1 @ CHR ''.'' # g2 @ CHR ''.'' # g3 @ CHR ''.'' # g4"
    using split_on_join_head [of "CHR ''.''" body] s by simp
  moreover have "g1 \<in> lang (Rep1to3 (Class digit))" "g2 \<in> lang (Rep1to3 (Class digit))"
    "g3 \<in> lang (Rep1to3 (Class digit))" "g4 \<in> lang (Rep1to3 (Class digit))"
    unfolding lang_group using ok [of g1] ok [of g2] ok [of g3] ok [of g4] s by auto
  ultimately show "d \<in> lang re_ip_literal"
    unfolding lang_ip_form using d by blast
qed

subsection \<open>The validator and the grammar\<close>

lemma lang_email_re: "e \<in> lang email_re \<longleftrightarrow> address_grammar e"
proof -
  have "e \<in> lang email_re \<longleftrightarrow>
      (\<exists>l d. e = l @ ''@'' @ d \<and> l \<in> lang (Or re_dot_atoms re_quoted)
              \<and> d \<in> lang (Or re_ip_literal re_hostname))"
    unfolding email_re_def lang_Cat_iff [of e] lang_Cat_Lit by auto
  also have "\<dots> \<longleftrightarrow> address_grammar e"
    unfolding address_grammar_def local_part_def domain_part_def
    using lang_dot_atoms lang_quoted lang_ip_literal lang_hostname by auto
  finally show ?thesis .
qed

lemma address_grammar_not_NULL: "address_grammar e \<Longrightarrow> e \<noteq> ''NULL''"
proof
  assume "address_grammar e" and n: "e = ''NULL''"
  then obtain l d where "e = l @ ''@'' @ d"
    unfolding address_grammar_def by blast
  with n have "''NULL'' = l @ ''@'' @ d" by simp
  then have "CHR ''@'' \<in> set ''NULL''"
    by (metis append_Cons in_set_conv_decomp)
  then show False by simp
qed

lemma hostname_last_letter: "hostname d \<Longrightarrow> d \<noteq> [] \<and> letter (last d)"
proof -
  assume h: "hostname d"
  let ?labels = "split_on CHR ''.'' d"
  have tld: "last ?labels \<noteq> []" "\<forall>c \<in> set (last ?labels). letter c"
    using h by (auto simp: hostname_def Let_def)
  have d: "d = concat (map (\<lambda>l. l @ ''.'') (butlast ?labels)) @ last ?labels"
    using split_on_join_last [of "CHR ''.''" d] by simp
  have "d \<noteq> []" using d tld(1) by auto
  moreover have "last d = last (last ?labels)"
    using d tld(1) by (metis last_appendR)
  ultimately show ?thesis using tld by simp
qed

lemma spec_address_last_letter: "spec_address_grammar e \<Longrightarrow> letter (last e)"
proof -
  assume "spec_address_grammar e"
  then obtain l d where e: "e = l @ ''@'' @ d" and "hostname d"
    unfolding spec_address_grammar_def by blast
  then have "d \<noteq> []" "letter (last d)"
    using hostname_last_letter by blast+
  then show ?thesis using e by simp
qed

lemma literal_email_valid: "isValidEmail ''a@[1.2.3.4]''"
  by code_simp

lemma bad_email_invalid: "\<not> isValidEmail ''bad@@@x''"
  by code_simp

lemma good_email_valid: "isValidEmail ''a@b.co''"
  by code_simp

text \<open>
  C3, as the code has it. The validator accepts a string exactly when the string is not the
  sentinel \<open>NULL\<close> and is an address of the pattern's grammar: a local part (non-empty
  atoms separated by dots, or a quoted string), an \<open>@\<close>, and a domain that is a host name
  with at least one dot and a top-level domain of at least two letters, or a bracketed
  literal of four groups of digits. The validator is a function of its argument alone.
\<close>

theorem isValidEmail_grammar:
  "isValidEmail e \<longleftrightarrow> address_grammar e \<and> e \<noteq> ''NULL''"
proof -
  have "address_grammar e \<Longrightarrow> e \<noteq> []"
    by (auto simp: address_grammar_def)
  then show ?thesis
    unfolding isValidEmail_def re_test_lang lang_email_re
    using address_grammar_not_NULL by auto
qed

text \<open>\<open>a@b.co\<close> is an address, \<open>bad@@@x\<close> is none, and the sentinel is rejected.\<close>

theorem isValidEmail_grammar_witness:
  "address_grammar ''a@b.co'' \<and> \<not> address_grammar ''bad@@@x'' \<and> \<not> isValidEmail ''NULL''"
proof -
  have "\<not> address_grammar ''bad@@@x''"
    using isValidEmail_grammar [of "''bad@@@x''"] bad_email_invalid by simp
  moreover have "address_grammar ''a@b.co''"
    using isValidEmail_grammar [of "''a@b.co''"] good_email_valid by simp
  moreover have "\<not> isValidEmail ''NULL''"
    using isValidEmail_grammar [of "''NULL''"] by simp
  ultimately show ?thesis by simp
qed

text \<open>
  C3 as the specification words it fails: the validator accepts an address whose domain is
  a bracketed literal, which has no top-level domain.
\<close>

theorem isValidEmail_grammar_counterexample:
  "isValidEmail ''a@[1.2.3.4]'' \<and> ''a@[1.2.3.4]'' \<noteq> ''NULL'' \<and>
   \<not> spec_address_grammar ''a@[1.2.3.4]''"
proof -
  have "\<not> letter (last ''a@[1.2.3.4]'')"
    by (simp add: letter_def in_range_def)
  then have "\<not> spec_address_grammar ''a@[1.2.3.4]''"
    using spec_address_last_letter by blast
  then show ?thesis
    using literal_email_valid by simp
qed

section \<open>Normalisation of provider records\<close>

lemma str_includes_sublist: "str_includes s pat = sublist pat s"
  by (induction s) (auto simp: sublist_Cons_right)

lemma mapConfidence_Low: "mapConfidence ''Low'' = Low"
  by code_simp

lemma mapConfidence_Estimated:
  "mapConfidence c = Estimated \<longleftrightarrow>
     \<not> sublist ''verif'' (toLowerCase c) \<and> \<not> sublist ''high'' (toLowerCase c) \<and>
     \<not> sublist ''low'' (toLowerCase c)"
  by (simp add: mapConfidence_def Let_def str_includes_sublist)

lemma or_default_missing: "v = None \<or> v = Some [] \<Longrightarrow> or_default v d = d"
  by (auto simp: or_default_def)

lemma unsure_no_level:
  "\<not> str_includes (toLowerCase ''Unsure'') ''verif''"
  "\<not> str_includes (toLowerCase ''Unsure'') ''high''"
  "\<not> str_includes (toLowerCase ''Unsure'') ''low''"
  by code_simp+

text \<open>
  C1, as the code has it. A property that is missing (or empty) gets its default:
  \<open>Unknown\<close> for first name, job title, company name and location; the empty string for
  last name, linkedin and website; \<open>NULL\<close> for e-mail and phone; and confidence \<open>Low\<close>.
  The confidence is \<open>Estimated\<close> exactly when a confidence text is given that, in lower
  case, contains none of \<open>verif\<close>, \<open>high\<close> and \<open>low\<close>.
\<close>

theorem normalize_defaults:
  "(raw_firstName l \<in> {None, Some []} \<longrightarrow> firstName (normalize u l) = ''Unknown'') \<and>
   (raw_lastName l \<in> {None, Some []} \<longrightarrow> lastName (normalize u l) = []) \<and>
   (raw_email l \<in> {None, Some []} \<longrightarrow> email (normalize u l) = ''NULL'') \<and>
   (raw_phone l \<in> {None, Some []} \<longrightarrow> phone (normalize u l) = ''NULL'') \<and>
   (raw_jobTitle l \<in> {None, Some []} \<longrightarrow> jobTitle (normalize u l) = ''Unknown'') \<and>
   (raw_companyName l \<in> {None, Some []} \<longrightarrow> companyName (normalize u l) = ''Unknown'') \<and>
   (raw_location l \<in> {None, Some []} \<longrightarrow> location (normalize u l) = ''Unknown'') \<and>
   (raw_linkedin l \<in> {None, Some []} \<longrightarrow> linkedin (normalize u l) = []) \<and>
   (raw_website l \<in> {None, Some []} \<longrightarrow> website (normalize u l) = []) \<and>
   (raw_emailConfidence l \<in> {None, Some []} \<longrightarrow> emailConfidence (normalize u l) = Low) \<and>
   (emailConfidence (normalize u l) = Estimated \<longleftrightarrow>
      (\<exists>c. raw_emailConfidence l = Some c \<and> c \<noteq> [] \<and>
           \<not> sublist ''verif'' (toLowerCase c) \<and> \<not> sublist ''high'' (toLowerCase c) \<and>
           \<not> sublist ''low'' (toLowerCase c)))"
proof -
  have est: "emailConfidence (normalize u l) = Estimated \<longleftrightarrow>
      (\<exists>c. raw_emailConfidence l = Some c \<and> c \<noteq> [] \<and>
           \<not> sublist ''verif'' (toLowerCase c) \<and> \<not> sublist ''high'' (toLowerCase c) \<and>
           \<not> sublist ''low'' (toLowerCase c))"
  proof (cases "raw_emailConfidence l")
    case None
    then show ?thesis by (simp add: normalize_def or_default_def mapConfidence_Low)
  next
    case (Some c)
    then show ?thesis
      by (cases "c = []")
         (simp_all add: normalize_def or_default_def mapConfidence_Low mapConfidence_Estimated)
  qed
  show ?thesis
    using est by (auto simp: normalize_def or_default_missing mapConfidence_Low)
qed

text \<open>
  The record without properties becomes the lead made of the defaults, and a record whose
  confidence text is \<open>Unsure\<close> gets confidence \<open>Estimated\<close>.
\<close>

theorem normalize_defaults_witness:
  "normalize ''id-1'' no_fields =
     \<lparr> lead_id = ''id-1'', firstName = ''Unknown'', lastName = [], email = ''NULL'',
       phone = ''NULL'', jobTitle = ''Unknown'', companyName = ''Unknown'',
       location = ''Unknown'', linkedin = [], website = [], emailConfidence = Low,
       source = Some ''Gemini Search'' \<rparr> \<and>
   emailConfidence (normalize ''id-1'' unsure_confidence) = Estimated"
proof -
  have "raw_emailConfidence unsure_confidence = Some ''Unsure''"
    by (simp add: unsure_confidence_def)
  then have "emailConfidence (normalize ''id-1'' unsure_confidence) = Estimated"
    using normalize_defaults [of unsure_confidence "''id-1''"]
      unsure_no_level [unfolded str_includes_sublist]
    by simp
  then show ?thesis
    using normalize_defaults [of no_fields "''id-1''"]
    by (simp add: no_fields_def normalize_def)
qed

text \<open>
  C1 as the specification words it fails on that record: the last name is not \<open>Unknown\<close>
  and the confidence is not \<open>Estimated\<close>.
\<close>

theorem normalize_defaults_counterexample:
  "lastName (normalize ''id-1'' no_fields) \<noteq> ''Unknown'' \<and>
   emailConfidence (normalize ''id-1'' no_fields) \<noteq> Estimated"
  by (simp add: no_fields_def normalize_def or_default_def mapConfidence_Low)

section \<open>Classification of gateway failures\<close>

text \<open>
  C2, as the code has it. A failed provider call is rethrown as \<open>QUOTA_EXCEEDED\<close> exactly
  when the message contains \<open>RESOURCE_EXHAUSTED\<close>, \<open>429\<close> or the lower-case word \<open>quota\<close>,
  or \<open>status\<close> (or, when \<open>status\<close> is falsy, \<open>code\<close>) is the number 429, or the property
  dump contains \<open>RESOURCE_EXHAUSTED\<close> or the quota-subsystem token. Every other failure
  is rethrown unchanged.
\<close>

theorem findLeads_classification:
  "findLeads True (Rejects e) uuid =
     Inl (if sublist ''RESOURCE_EXHAUSTED'' (message e) \<or>
             sublist ''429'' (message e) \<or>
             sublist ''quota'' (message e) \<or>
             err_status e = JNum 429 \<or>
             (\<not> truthy (err_status e) \<and> err_code e = JNum 429) \<or>
             sublist ''RESOURCE_EXHAUSTED'' (errBody e) \<or>
             sublist ''search_grounding_request_per_project_per_day_per_user'' (errBody e)
          then NewError ''QUOTA_EXCEEDED'' else Rethrown e)"
proof -
  have "isQuotaError e \<longleftrightarrow>
      sublist ''RESOURCE_EXHAUSTED'' (message e) \<or>
      sublist ''429'' (message e) \<or>
      sublist ''quota'' (message e) \<or>
      err_status e = JNum 429 \<or>
      (\<not> truthy (err_status e) \<and> err_code e = JNum 429) \<or>
      sublist ''RESOURCE_EXHAUSTED'' (errBody e) \<or>
      sublist ''search_grounding_request_per_project_per_day_per_user'' (errBody e)"
    unfolding isQuotaError_def Let_def js_or_def str_includes_sublist
    by (cases "truthy (err_status e)") auto
  then show ?thesis
    by (simp add: findLeads_def)
qed

text \<open>The error of the quota scenario is classified as \<open>QUOTA_EXCEEDED\<close>.\<close>

theorem findLeads_classification_witness:
  "findLeads True (Rejects resource_exhausted) (\<lambda>i. []) = Inl (NewError ''QUOTA_EXCEEDED'')"
proof -
  have "sublist ''429'' (message resource_exhausted)"
    unfolding str_includes_sublist [symmetric] by code_simp
  then show ?thesis
    using findLeads_classification [of resource_exhausted "\<lambda>i. []"] by simp
qed

text \<open>
  C2 as the specification words it fails: a message that contains \<open>quota\<close> only when
  case is ignored is not classified, and the provider's error is rethrown.
\<close>

theorem findLeads_classification_counterexample:
  "str_includes (toLowerCase (message quota_upper)) ''quota'' \<and>
   findLeads True (Rejects quota_upper) (\<lambda>i. []) = Inl (Rethrown quota_upper)"
proof -
  have a: "str_includes (toLowerCase (message quota_upper)) ''quota''"
    by code_simp
  have b: "\<not> isQuotaError quota_upper"
    by code_simp
  show ?thesis using a b by (simp add: findLeads_def)
qed

section \<open>Validation and deduplication\<close>

text \<open>
  C4. The validation pass keeps the number and order of the leads; a lead whose e-mail is
  not the sentinel and fails the validator has its e-mail replaced by \<open>NULL\<close> and its
  confidence set to \<open>Low\<close>, whatever the provider claimed; every other lead is unchanged.
\<close>

theorem validation_pass:
  "length (validatedLeads ls) = length ls \<and>
   (\<forall>i < length ls.
      (email (ls ! i) \<noteq> ''NULL'' \<and> \<not> isValidEmail (email (ls ! i)) \<longrightarrow>
         validatedLeads ls ! i = (ls ! i)\<lparr>email := ''NULL'', emailConfidence := Low\<rparr>) \<and>
      (email (ls ! i) = ''NULL'' \<or> isValidEmail (email (ls ! i)) \<longrightarrow>
         validatedLeads ls ! i = ls ! i))"
  by (simp add: validatedLeads_def)

text \<open>A lead with e-mail \<open>bad@@@x\<close> and confidence \<open>Verified\<close> is downgraded, its neighbour kept.\<close>

theorem validation_pass_witness:
  "email bad_lead = ''bad@@@x'' \<and> emailConfidence bad_lead = Verified \<and>
   validatedLeads [bad_lead, twin_a] ! 0 = bad_lead\<lparr>email := ''NULL'', emailConfidence := Low\<rparr> \<and>
   validatedLeads [bad_lead, twin_a] ! 1 = twin_a"
proof -
  have e: "email bad_lead = ''bad@@@x''" "emailConfidence bad_lead = Verified"
    "email twin_a = ''a@b.co''"
    by (simp_all add: bad_lead_def twin_a_def sample_lead_def)
  have n: "(0::nat) < length [bad_lead, twin_a]" "(1::nat) < length [bad_lead, twin_a]"
    by simp_all
  have a: "\<forall>i < length [bad_lead, twin_a].
      (email ([bad_lead, twin_a] ! i) \<noteq> ''NULL'' \<and> \<not> isValidEmail (email ([bad_lead, twin_a] ! i)) \<longrightarrow>
         validatedLeads [bad_lead, twin_a] ! i
           = ([bad_lead, twin_a] ! i)\<lparr>email := ''NULL'', emailConfidence := Low\<rparr>) \<and>
      (email ([bad_lead, twin_a] ! i) = ''NULL'' \<or> isValidEmail (email ([bad_lead, twin_a] ! i)) \<longrightarrow>
         validatedLeads [bad_lead, twin_a] ! i = [bad_lead, twin_a] ! i)"
    using validation_pass [of "[bad_lead, twin_a]"] by (rule conjunct2)
  have "validatedLeads [bad_lead, twin_a] ! 0 = bad_lead\<lparr>email := ''NULL'', emailConfidence := Low\<rparr>"
    using a [rule_format, OF n(1)] e bad_email_invalid by simp
  moreover have "validatedLeads [bad_lead, twin_a] ! 1 = twin_a"
    using a [rule_format, OF n(2)] e good_email_valid by simp
  ultimately show ?thesis
    using e by simp
qed

lemma validated_email_nonempty: "l \<in> set (validatedLeads ls) \<Longrightarrow> email l \<noteq> []"
  by (auto simp: validatedLeads_def isValidEmail_def)

section \<open>The controller\<close>

lemmas handler_defs =
  handleSearch_def executeSearch_begin_def executeSearch_settle_def tick_def toggleLoop_def
  copyEmails_def clearData_def addLog_def setStatus_def leadsEffect_def Let_def

lemma mount_totalFound: "totalFound (status (mount st)) = length (leads (mount st))"
  by (simp add: mount_def initial_def handler_defs split: option.splits stored.splits)

lemma mount_flags:
  "\<not> quotaHit (mount st)" "\<not> isLooping (status (mount st))" "currentCriteria (mount st) = None"
  by (simp_all add: mount_def initial_def handler_defs split: option.splits stored.splits)

lemma transition_totalFound:
  "transition s s' \<Longrightarrow> totalFound (status s) = length (leads s) \<Longrightarrow>
     totalFound (status s') = length (leads s')"
  by (induction rule: transition.induct)
     (auto simp: handler_defs split: sum.splits option.splits if_splits)

lemma transition_quotaHit: "transition s s' \<Longrightarrow> quotaHit s \<Longrightarrow> quotaHit s'"
  by (induction rule: transition.induct)
     (auto simp: handler_defs split: sum.splits option.splits if_splits)

lemma transition_halted:
  "transition s s' \<Longrightarrow> (quotaHit s \<longrightarrow> \<not> isLooping (status s)) \<Longrightarrow>
     quotaHit s' \<longrightarrow> \<not> isLooping (status s')"
  by (induction rule: transition.induct)
     (auto simp: handler_defs split: sum.splits option.splits if_splits)

lemma transition_criteria:
  "transition s s' \<Longrightarrow> (isLooping (status s) \<longrightarrow> currentCriteria s \<noteq> None) \<Longrightarrow>
     isLooping (status s') \<longrightarrow> currentCriteria s' \<noteq> None"
  by (induction rule: transition.induct)
     (auto simp: handler_defs split: sum.splits option.splits if_splits)

lemma reachable_halted: "reachable s \<Longrightarrow> quotaHit s \<longrightarrow> \<not> isLooping (status s)"
  by (induction rule: reachable.induct) (auto simp: mount_flags dest: transition_halted)

lemma reachable_criteria: "reachable s \<Longrightarrow> isLooping (status s) \<longrightarrow> currentCriteria s \<noteq> None"
  by (induction rule: reachable.induct) (auto simp: mount_flags dest: transition_criteria)

lemma steps_halted:
  "transition\<^sup>*\<^sup>* s s' \<Longrightarrow> quotaHit s \<and> \<not> isLooping (status s) \<Longrightarrow>
     quotaHit s' \<and> \<not> isLooping (status s')"
  by (induction rule: rtranclp_induct) (auto dest: transition_quotaHit transition_halted)

lemma reachable_executeSearch: "reachable s \<Longrightarrow> reachable (snd (executeSearch outcome now s))"
  unfolding executeSearch_def
  by (auto intro: r_step t_findMore t_settle)

lemma reachable_halted_state: "reachable halted"
  unfolding halted_def
  by (intro r_step [OF _ t_settle] r_step [OF _ t_handleSearch] r_mount)

lemma halted_quotaHit: "quotaHit halted"
  by (simp add: halted_def handler_defs)

lemma after_twins_leads: "leads after_twins = [twin_a, twin_b]"
  using good_email_valid
  by (simp add: after_twins_def executeSearch_def handler_defs mount_def initial_def
      uniqueNewLeads_def validatedLeads_def existingIds_def twin_a_def twin_b_def sample_lead_def)

lemma filter_kept:
  assumes "\<And>x. P x \<Longrightarrow> f x = x \<and> Q x" and "\<And>x. \<not> P x \<Longrightarrow> \<not> P (f x)"
  shows "filter P (filter Q (map f xs)) = filter P xs"
proof (induction xs)
  case Nil
  show ?case by simp
next
  case (Cons x xs)
  then show ?case using assms [of x] by (cases "P x") auto
qed

lemma filter_subsumed:
  "(\<And>x. x \<in> set xs \<Longrightarrow> P x \<Longrightarrow> Q x) \<Longrightarrow> filter P (filter Q xs) = filter P xs"
  by (induction xs) auto

lemma settle_leads:
  "leads (snd (executeSearch_settle snapshot (Inr batch) now s)) =
     uniqueNewLeads (existingIds snapshot) (validatedLeads batch) @ leads s"
  by (simp add: handler_defs)

lemma existingIds_identifier:
  assumes "i \<noteq> []"
  shows "i \<in> existingIds cur \<longleftrightarrow> (\<exists>k \<in> set cur. lead_identifier k = Some i)"
proof
  assume "i \<in> existingIds cur"
  then obtain k where k: "k \<in> set cur"
    and i: "i = (if email k = ''NULL'' then linkedin k else email k)"
    unfolding existingIds_def by auto
  have "lead_identifier k = Some i"
    using i assms by (cases "email k = ''NULL''") (simp_all add: lead_identifier_def)
  with k show "\<exists>k \<in> set cur. lead_identifier k = Some i" by blast
next
  assume "\<exists>k \<in> set cur. lead_identifier k = Some i"
  then obtain k where k: "k \<in> set cur" and "lead_identifier k = Some i" by blast
  then have "i = (if email k = ''NULL'' then linkedin k else email k)"
    by (auto simp: lead_identifier_def split: if_splits)
  with k show "i \<in> existingIds cur"
    unfolding existingIds_def by auto
qed

lemma validated_identifier_nonempty:
  "l \<in> set (validatedLeads ls) \<Longrightarrow> lead_identifier l = Some i \<Longrightarrow> i \<noteq> []"
  using validated_email_nonempty [of l ls]
  by (auto simp: lead_identifier_def split: if_splits)

lemma begin_leads: "leads (snd (executeSearch_begin s)) = leads s"
  by (simp add: handler_defs)

lemma fresh_email_valid: "isValidEmail ''c@d.io''"
  by code_simp

text \<open>
  C5. The duplicate filter of a search keeps a validated lead exactly when the lead has no
  identifier, or no lead of the collection captured at the start has the same identifier
  (the e-mail when it is not the sentinel, otherwise the linkedin value). A lead with
  sentinel e-mail and empty linkedin has no identifier and is kept. The collection after
  the search is the kept leads in front of the old collection, and in a search that runs
  without interruption the captured collection is the current one.
\<close>

theorem dedup_exact:
  "uniqueNewLeads (existingIds cur) (validatedLeads batch) =
     filter (\<lambda>l. case lead_identifier l of
                   None \<Rightarrow> True
                 | Some i \<Rightarrow> \<forall>k \<in> set cur. lead_identifier k \<noteq> Some i)
       (validatedLeads batch) \<and>
   (\<forall>l \<in> set (validatedLeads batch).
      email l = ''NULL'' \<and> linkedin l = [] \<longrightarrow>
        lead_identifier l = None \<and> l \<in> set (uniqueNewLeads (existingIds cur) (validatedLeads batch))) \<and>
   leads (snd (executeSearch_settle cur (Inr batch) now s)) =
     uniqueNewLeads (existingIds cur) (validatedLeads batch) @ leads s \<and>
   (\<not> quotaHit s \<longrightarrow>
      leads (snd (executeSearch (Inr batch) now s)) =
        uniqueNewLeads (existingIds (leads s)) (validatedLeads batch) @ leads s)"
proof -
  have keep: "(let i = (if email l \<noteq> ''NULL'' then email l else linkedin l)
               in if i = [] then True else i \<notin> existingIds cur) \<longleftrightarrow>
      (case lead_identifier l of
         None \<Rightarrow> True
       | Some i \<Rightarrow> \<forall>k \<in> set cur. lead_identifier k \<noteq> Some i)"
    if "l \<in> set (validatedLeads batch)" for l
  proof (cases "lead_identifier l")
    case None
    then show ?thesis
      using validated_email_nonempty [OF that]
      by (auto simp: lead_identifier_def Let_def split: if_splits)
  next
    case (Some i)
    then have ne: "i \<noteq> []" using validated_identifier_nonempty [OF that] by simp
    have "(if email l \<noteq> ''NULL'' then email l else linkedin l) = i"
      using Some by (auto simp: lead_identifier_def split: if_splits)
    then show ?thesis
      using Some ne existingIds_identifier [OF ne, of cur] by (auto simp: Let_def)
  qed
  have 1: "uniqueNewLeads (existingIds cur) (validatedLeads batch) =
     filter (\<lambda>l. case lead_identifier l of
                   None \<Rightarrow> True
                 | Some i \<Rightarrow> \<forall>k \<in> set cur. lead_identifier k \<noteq> Some i)
       (validatedLeads batch)"
    unfolding uniqueNewLeads_def by (rule filter_cong) (simp_all add: keep)
  have 2: "\<forall>l \<in> set (validatedLeads batch).
      email l = ''NULL'' \<and> linkedin l = [] \<longrightarrow>
        lead_identifier l = None \<and> l \<in> set (uniqueNewLeads (existingIds cur) (validatedLeads batch))"
    by (auto simp: uniqueNewLeads_def lead_identifier_def)
  have 3: "leads (snd (executeSearch_settle cur (Inr batch) now s)) =
     uniqueNewLeads (existingIds cur) (validatedLeads batch) @ leads s"
    by (rule settle_leads)
  have 4: "leads (snd (executeSearch (Inr batch) now s)) =
        uniqueNewLeads (existingIds (leads s)) (validatedLeads batch) @ leads s"
    if "\<not> quotaHit s"
    using that by (simp add: executeSearch_def settle_leads begin_leads)
  show ?thesis using 1 2 3 4 by blast
qed

text \<open>
  Against a collection that holds the shared e-mail and a lead without identifier, the
  twin is dropped, the lead without identifier and the lead with a new e-mail are kept.
  A second search that returns a twin and a new lead adds the new lead only.
\<close>

theorem dedup_exact_witness:
  "uniqueNewLeads (existingIds [twin_a, anonymous_lead])
       (validatedLeads [twin_b, anonymous_lead, fresh_lead])
     = [anonymous_lead, fresh_lead] \<and>
   leads (snd (executeSearch (Inr [twin_b, fresh_lead]) ''10:05:00'' after_twins))
     = [fresh_lead, twin_a, twin_b]"
proof -
  have v: "validatedLeads [twin_b, anonymous_lead, fresh_lead] = [twin_b, anonymous_lead, fresh_lead]"
    "validatedLeads [twin_b, fresh_lead] = [twin_b, fresh_lead]"
    using good_email_valid fresh_email_valid
    by (simp_all add: validatedLeads_def twin_b_def anonymous_lead_def fresh_lead_def sample_lead_def)
  have ids: "lead_identifier twin_a = Some ''a@b.co''" "lead_identifier twin_b = Some ''a@b.co''"
    "lead_identifier anonymous_lead = None" "lead_identifier fresh_lead = Some ''c@d.io''"
    by (simp_all add: lead_identifier_def twin_a_def twin_b_def anonymous_lead_def fresh_lead_def
        sample_lead_def)
  have q: "\<not> quotaHit after_twins"
    by (simp add: after_twins_def executeSearch_def handler_defs mount_def initial_def)
  have a: "uniqueNewLeads (existingIds [twin_a, anonymous_lead])
       (validatedLeads [twin_b, anonymous_lead, fresh_lead]) = [anonymous_lead, fresh_lead]"
    using dedup_exact [of "[twin_a, anonymous_lead]" "[twin_b, anonymous_lead, fresh_lead]"]
    unfolding v by (simp add: ids)
  have "uniqueNewLeads (existingIds [twin_a, twin_b]) (validatedLeads [twin_b, fresh_lead]) = [fresh_lead]"
    using dedup_exact [of "[twin_a, twin_b]" "[twin_b, fresh_lead]"]
    unfolding v by (simp add: ids)
  then have b: "leads (snd (executeSearch (Inr [twin_b, fresh_lead]) ''10:05:00'' after_twins))
     = [fresh_lead, twin_a, twin_b]"
    using dedup_exact [of "leads after_twins" "[twin_b, fresh_lead]" "''10:05:00''" after_twins] q
    by (simp add: after_twins_leads)
  show ?thesis using a b by simp
qed

text \<open>
  C6. The quota-exceeded transition sets the quota flag and clears \<open>isLooping\<close>. In a
  reachable state with the flag set, \<open>isLooping\<close> is false, \<open>toggleLoop\<close> and a new search
  leave the flag set and \<open>isLooping\<close> false, and after any number of further transitions the
  flag is still set and \<open>isLooping\<close> still false.
\<close>

theorem quota_terminal:
  "(thrown_message err = ''QUOTA_EXCEEDED'' \<longrightarrow>
      quotaHit (snd (executeSearch_settle snapshot (Inl err) now s0)) \<and>
      \<not> isLooping (status (snd (executeSearch_settle snapshot (Inl err) now s0)))) \<and>
   (reachable s \<and> quotaHit s \<longrightarrow>
      \<not> isLooping (status s) \<and>
      snd (toggleLoop s) = s \<and>
      snd (executeSearch_begin s) = s \<and>
      quotaHit (snd (handleSearch criteria s)) \<and>
      \<not> isLooping (status (snd (handleSearch criteria s))) \<and>
      (\<forall>s'. transition\<^sup>*\<^sup>* s s' \<longrightarrow> quotaHit s' \<and> \<not> isLooping (status s')))"
proof -
  have a: "thrown_message err = ''QUOTA_EXCEEDED'' \<longrightarrow>
      quotaHit (snd (executeSearch_settle snapshot (Inl err) now s0)) \<and>
      \<not> isLooping (status (snd (executeSearch_settle snapshot (Inl err) now s0)))"
    by (simp add: handler_defs)
  have b: "\<not> isLooping (status s) \<and> snd (toggleLoop s) = s \<and> snd (executeSearch_begin s) = s \<and>
      quotaHit (snd (handleSearch criteria s)) \<and>
      \<not> isLooping (status (snd (handleSearch criteria s))) \<and>
      (\<forall>s'. transition\<^sup>*\<^sup>* s s' \<longrightarrow> quotaHit s' \<and> \<not> isLooping (status s'))"
    if r: "reachable s" and q: "quotaHit s"
  proof -
    have l: "\<not> isLooping (status s)" using reachable_halted [OF r] q by simp
    have "snd (toggleLoop s) = s" "snd (executeSearch_begin s) = s"
      using q by (simp_all add: toggleLoop_def executeSearch_begin_def)
    moreover have "quotaHit (snd (handleSearch criteria s))"
      "\<not> isLooping (status (snd (handleSearch criteria s)))"
      using q l by (simp_all add: handleSearch_def executeSearch_begin_def)
    moreover have "\<forall>s'. transition\<^sup>*\<^sup>* s s' \<longrightarrow> quotaHit s' \<and> \<not> isLooping (status s')"
      using steps_halted q l by blast
    ultimately show ?thesis using l by simp
  qed
  show ?thesis using a b by blast
qed

text \<open>
  The state after a search that failed with \<open>QUOTA_EXCEEDED\<close> is reachable and halted.
\<close>

theorem quota_terminal_witness:
  "reachable halted \<and> quotaHit halted \<and> \<not> isLooping (status halted) \<and>
   snd (toggleLoop halted) = halted \<and> snd (executeSearch_begin halted) = halted"
  using quota_terminal [of "NewError ''QUOTA_EXCEEDED''" "[]" "''10:00:00''"
      "snd (handleSearch sample_criteria (mount Map.empty))" halted sample_criteria]
    reachable_halted_state halted_quotaHit
  by simp

text \<open>
  C7. In a reachable state \<open>toggleLoop\<close> is refused, with an alert and no change of state,
  when there are no current criteria or the quota flag is set; otherwise it flips
  \<open>isLooping\<close> and changes nothing else.
\<close>

theorem toggleLoop_guard:
  "reachable s \<Longrightarrow>
     (currentCriteria s = None \<or> quotaHit s \<longrightarrow> (\<exists>msg. toggleLoop s = (Some msg, s))) \<and>
     (currentCriteria s \<noteq> None \<and> \<not> quotaHit s \<longrightarrow>
        toggleLoop s = (None, s\<lparr>status := (status s)\<lparr>isLooping := \<not> isLooping (status s)\<rparr>\<rparr>))"
  using reachable_criteria [of s] by (auto simp: toggleLoop_def setStatus_def)

text \<open>
  Refused right after mounting and when halted; after a first search it switches looping on.
\<close>

theorem toggleLoop_guard_witness:
  "(\<exists>msg. toggleLoop (mount Map.empty) = (Some msg, mount Map.empty)) \<and>
   (\<exists>msg. toggleLoop halted = (Some msg, halted)) \<and>
   isLooping (status (snd (toggleLoop (snd (handleSearch sample_criteria (mount Map.empty))))))"
proof -
  let ?s = "snd (handleSearch sample_criteria (mount Map.empty))"
  have r: "reachable ?s" by (intro r_step [OF _ t_handleSearch] r_mount)
  have c: "currentCriteria ?s \<noteq> None" "\<not> quotaHit ?s" "\<not> isLooping (status ?s)"
    by (simp_all add: handler_defs mount_flags)
  have 1: "\<exists>msg. toggleLoop (mount Map.empty) = (Some msg, mount Map.empty)"
    using toggleLoop_guard [OF r_mount, of Map.empty] mount_flags(3) [of Map.empty] by blast
  have 2: "\<exists>msg. toggleLoop halted = (Some msg, halted)"
    using toggleLoop_guard [OF reachable_halted_state] halted_quotaHit by blast
  have 3: "isLooping (status (snd (toggleLoop ?s)))"
    using toggleLoop_guard [OF r] c by simp
  show ?thesis using 1 2 3 by blast
qed

text \<open>
  C8. In every reachable state \<open>totalFound\<close> is the length of the lead collection: each
  transition that replaces the collection is followed by the effect that recomputes it, and
  no other transition writes it.
\<close>

theorem totalFound_invariant: "reachable s \<Longrightarrow> totalFound (status s) = length (leads s)"
  by (induction rule: reachable.induct) (auto simp: mount_totalFound dest: transition_totalFound)

text \<open>
  After a search that found two leads, \<open>totalFound\<close> is 2.
\<close>

theorem totalFound_invariant_witness:
  "reachable after_twins \<and> leads after_twins = [twin_a, twin_b] \<and>
   totalFound (status after_twins) = 2"
proof -
  have r: "reachable after_twins"
    unfolding after_twins_def by (rule reachable_executeSearch [OF r_mount])
  show ?thesis
    using totalFound_invariant [OF r] r after_twins_leads by simp
qed

text \<open>
  C9. After a confirmed clear-all the collection is empty, but the key is not absent from
  the store: the \<open>[leads]\<close> effect that follows \<open>setLeads([])\<close> writes the empty collection
  back under the key that the handler has just removed.
\<close>

theorem clearData_store:
  "leads (clearData True s) = [] \<and> storage (clearData True s) storageKey = Some (Saved [])"
  by (simp add: clearData_def leadsEffect_def setStatus_def)

text \<open>
  C10. When a search settles, the new collection is the validated batch, filtered against
  the identifiers captured before the call only, in front of the old collection. So all
  leads of the batch that share an identifier absent from the captured set are appended;
  in particular all leads of the batch that carry the same valid e-mail.
\<close>

theorem same_batch_duplicates:
  assumes "i \<notin> existingIds snapshot"
  shows "leads (snd (executeSearch_settle snapshot (Inr batch) now s)) =
           uniqueNewLeads (existingIds snapshot) (validatedLeads batch) @ leads s \<and>
         filter (\<lambda>l. lead_identifier l = Some i)
             (uniqueNewLeads (existingIds snapshot) (validatedLeads batch)) =
           filter (\<lambda>l. lead_identifier l = Some i) (validatedLeads batch) \<and>
         (i \<noteq> ''NULL'' \<and> isValidEmail i \<longrightarrow>
            filter (\<lambda>l. email l = i) (uniqueNewLeads (existingIds snapshot) (validatedLeads batch)) =
              filter (\<lambda>l. email l = i) batch)"
proof -
  have 1: "filter (\<lambda>l. lead_identifier l = Some i)
             (uniqueNewLeads (existingIds snapshot) (validatedLeads batch)) =
           filter (\<lambda>l. lead_identifier l = Some i) (validatedLeads batch)"
    unfolding uniqueNewLeads_def
    by (rule filter_subsumed)
       (use assms in \<open>auto simp: lead_identifier_def Let_def split: if_splits\<close>)
  have 2: "filter (\<lambda>l. email l = i) (uniqueNewLeads (existingIds snapshot) (validatedLeads batch)) =
              filter (\<lambda>l. email l = i) batch" if "i \<noteq> ''NULL''" "isValidEmail i"
  proof -
    have ne: "i \<noteq> []" using that(2) by (auto simp: isValidEmail_def)
    show ?thesis
      unfolding uniqueNewLeads_def validatedLeads_def
      by (rule filter_kept) (use assms that ne in \<open>auto simp: Let_def\<close>)
  qed
  show ?thesis using 1 2 by (simp add: settle_leads)
qed

text \<open>
  Two leads with the same e-mail and different ids, returned in one batch, are both added.
\<close>

theorem same_batch_duplicates_witness:
  "email twin_a = email twin_b \<and> lead_id twin_a \<noteq> lead_id twin_b \<and>
   leads (snd (executeSearch_settle [] (Inr [twin_a, twin_b]) ''10:00:00'' (mount Map.empty)))
     = [twin_a, twin_b]"
proof -
  have e: "email twin_a = ''a@b.co''" "email twin_b = ''a@b.co''" "lead_id twin_a \<noteq> lead_id twin_b"
    by (simp_all add: twin_a_def twin_b_def sample_lead_def)
  have m: "leads (mount Map.empty) = []"
    by (simp add: mount_def initial_def handler_defs)
  have n: "''a@b.co'' \<notin> existingIds []"
    by (simp add: existingIds_def)
  let ?u = "uniqueNewLeads (existingIds []) (validatedLeads [twin_a, twin_b])"
  have f: "filter (\<lambda>l. email l = ''a@b.co'') ?u = [twin_a, twin_b]"
    and l: "leads (snd (executeSearch_settle [] (Inr [twin_a, twin_b]) ''10:00:00'' (mount Map.empty)))
        = ?u @ leads (mount Map.empty)"
    using same_batch_duplicates [OF n, of "[twin_a, twin_b]" "''10:00:00''" "mount Map.empty"]
      e good_email_valid
    by simp_all
  have "set ?u \<subseteq> {twin_a, twin_b}"
    using good_email_valid e by (auto simp: uniqueNewLeads_def validatedLeads_def)
  then have "filter (\<lambda>l. email l = ''a@b.co'') ?u = ?u"
    using e by (intro filter_True) auto
  then show ?thesis using f l m e by simp
qed

end
